theory Spec2Isabelle
  imports Complex_Main "HOL-Library.Multiset"
begin

unbundle bit_operations_syntax

section \<open>Python built-ins used by breakIP.py\<close>

text \<open>
  Python integers are unbounded, so they are modelled by \<open>int\<close>; on \<open>int\<close> the
  operations \<open>AND\<close>, \<open>OR\<close>, \<open>NOT\<close>, \<open>push_bit\<close> and \<open>drop_bit\<close> are the
  two's-complement operations \<open>&\<close>, \<open>|\<close>, \<open>~\<close>, \<open><<\<close> and \<open>>>\<close> of Python.
  A Python \<open>str\<close> is modelled by \<open>string\<close>, one \<open>char\<close> per code point below 256.
  Every exception the modelled functions can raise is a value of \<open>error\<close>.
\<close>

datatype error = ValueError | IndexError | ZeroDivisionError

text \<open>\<open>str.split('.')\<close>: the separator never occurs in a component, and the result is
  never empty (\<open>''.split('.') == ['']\<close>).\<close>

fun split_on :: "char \<Rightarrow> string \<Rightarrow> string list" where
  "split_on d [] = [[]]"
| "split_on d (c # cs) =
     (if c = d then [] # split_on d cs
      else (case split_on d cs of
              [] \<Rightarrow> [[c]]
            | r # rs \<Rightarrow> (c # r) # rs))"

text \<open>\<open>int(s)\<close> on a string, base 10: surrounding whitespace (the code points below 256
  that Python counts as whitespace) is stripped, one sign is allowed, then come decimal
  digits, where single underscores may stand between two digits. \<open>None\<close> is the
  \<open>ValueError\<close> of a string that is no integer literal. Decimal digits outside ASCII and the
  configurable limit of CPython 3.11 and later on the number of digits (4300 by default) are
  outside the model.\<close>

definition is_space :: "char \<Rightarrow> bool" where
  "is_space c =
     (let n = (of_char c :: nat)
      in (9 \<le> n \<and> n \<le> 13) \<or> (28 \<le> n \<and> n \<le> 32) \<or> n = 133 \<or> n = 160)"

definition is_digit :: "char \<Rightarrow> bool" where
  "is_digit c = (48 \<le> (of_char c :: nat) \<and> (of_char c :: nat) \<le> 57)"

definition digit_val :: "char \<Rightarrow> nat" where
  "digit_val c = of_char c - 48"

definition strip :: "string \<Rightarrow> string" where
  "strip s = rev (dropWhile is_space (rev (dropWhile is_space s)))"

fun digits_rest :: "nat \<Rightarrow> string \<Rightarrow> nat option" where
  "digits_rest acc [] = Some acc"
| "digits_rest acc (c # cs) =
     (if is_digit c then digits_rest (10 * acc + digit_val c) cs
      else if c = CHR ''_'' then
        (case cs of
           [] \<Rightarrow> None
         | d # ds \<Rightarrow> if is_digit d then digits_rest (10 * acc + digit_val d) ds else None)
      else None)"

definition py_digits :: "string \<Rightarrow> nat option" where
  "py_digits s =
     (case s of
        [] \<Rightarrow> None
      | c # cs \<Rightarrow> if is_digit c then digits_rest (digit_val c) cs else None)"

definition py_int :: "string \<Rightarrow> int option" where
  "py_int s =
     (case strip s of
        [] \<Rightarrow> None
      | c # cs \<Rightarrow>
          if c = CHR ''-'' then map_option (\<lambda>n. - int n) (py_digits cs)
          else if c = CHR ''+'' then map_option int (py_digits cs)
          else map_option int (py_digits (c # cs)))"

text \<open>\<open>str(n)\<close> of an integer, as the f-strings of the program format it.\<close>

definition digit_char :: "nat \<Rightarrow> char" where
  "digit_char n = ''0123456789'' ! n"

fun str_nat :: "nat \<Rightarrow> string" where
  "str_nat n = (if n < 10 then [digit_char n] else str_nat (n div 10) @ [digit_char (n mod 10)])"

declare str_nat.simps [simp del]

definition py_str :: "int \<Rightarrow> string" where
  "py_str i = (if i < 0 then CHR ''-'' # str_nat (nat (- i)) else str_nat (nat i))"

section \<open>The address codec\<close>

text \<open>\<open>ip_to_int\<close> (lines 1-4): every component is converted first (\<open>list(map(int, ...))\<close>),
  so a component that is no integer raises \<open>ValueError\<close> before a missing component raises
  \<open>IndexError\<close>; components after the fourth are converted and then ignored.\<close>

definition ip_to_int :: "string \<Rightarrow> error + int" where
  "ip_to_int ip =
     (case those (map py_int (split_on CHR ''.'' ip)) of
        None \<Rightarrow> Inl ValueError
      | Some octets \<Rightarrow>
          if length octets < 4 then Inl IndexError
          else Inr (((push_bit 24 (octets ! 0) OR push_bit 16 (octets ! 1))
                      OR push_bit 8 (octets ! 2)) OR octets ! 3))"

text \<open>\<open>int_to_ip\<close> (lines 6-8).\<close>

definition int_to_ip :: "int \<Rightarrow> string" where
  "int_to_ip num =
     py_str (drop_bit 24 num AND 0xFF) @ ''.'' @ py_str (drop_bit 16 num AND 0xFF) @ ''.'' @
     py_str (drop_bit 8 num AND 0xFF) @ ''.'' @ py_str (num AND 0xFF)"

section \<open>Subnet arithmetic and the minimal cover\<close>

text \<open>\<open>calculate_subnet_size\<close> (lines 10-14).\<close>

definition calculate_subnet_size :: "int \<Rightarrow> int" where
  "calculate_subnet_size prefix_len =
     (if prefix_len < 0 \<or> prefix_len > 32 then 0 else 2 ^ nat (32 - prefix_len))"

text \<open>\<open>a << n\<close>: Python raises \<open>ValueError\<close> (negative shift count) when \<open>n < 0\<close>.\<close>

definition py_lshift :: "int \<Rightarrow> int \<Rightarrow> error + int" where
  "py_lshift a n = (if n < 0 then Inl ValueError else Inr (push_bit (nat n) a))"

text \<open>The three assignments \<open>mask\<close>, \<open>network\<close>, \<open>broadcast\<close> that \<open>find_min_subnet\<close>
  makes in its loop (lines 27-29) and again in its fallback (lines 40-42).\<close>

definition network_broadcast :: "int \<Rightarrow> int \<Rightarrow> error + (int \<times> int)" where
  "network_broadcast min_ip prefix_len =
     (case py_lshift 0xFFFFFFFF (32 - prefix_len) of
        Inl e \<Rightarrow> Inl e
      | Inr shifted \<Rightarrow>
          (let mask = shifted AND 0xFFFFFFFF;
               network = min_ip AND mask;
               broadcast = network OR (NOT mask AND 0xFFFFFFFF)
           in Inr (network, broadcast)))"

text \<open>The \<open>while\<close> loop of \<open>find_min_subnet\<close> (lines 26-37) with the fallback that follows
  it (lines 39-46); the result is the tuple \<open>(cidr, start_ip, end_ip, prefix_len)\<close>.\<close>

function find_loop ::
  "int list \<Rightarrow> int \<Rightarrow> int \<Rightarrow> int \<Rightarrow> error + (string \<times> string \<times> string \<times> int)" where
  "find_loop ips_int min_ip min_prefix prefix_len =
     (if prefix_len \<ge> min_prefix then
        (case network_broadcast min_ip prefix_len of
           Inl e \<Rightarrow> Inl e
         | Inr (network, broadcast) \<Rightarrow>
             if list_all (\<lambda>ip. network \<le> ip \<and> ip \<le> broadcast) ips_int then
               Inr (int_to_ip network @ ''/'' @ py_str prefix_len,
                    int_to_ip network, int_to_ip broadcast, prefix_len)
             else find_loop ips_int min_ip min_prefix (prefix_len - 1))
      else
        (case network_broadcast min_ip min_prefix of
           Inl e \<Rightarrow> Inl e
         | Inr (network, broadcast) \<Rightarrow>
             Inr (int_to_ip network @ ''/'' @ py_str min_prefix,
                  int_to_ip network, int_to_ip broadcast, min_prefix)))"
  by pat_completeness auto
termination
  by (relation "measure (\<lambda>(ips_int, min_ip, min_prefix, prefix_len).
        nat (prefix_len - min_prefix + 1))") auto

declare find_loop.simps [simp del]

text \<open>\<open>find_min_subnet\<close> (lines 16-46): \<open>min\<close> of an empty list raises \<open>ValueError\<close>;
  \<open>max_ip\<close> is computed and never used.\<close>

definition find_min_subnet ::
  "int list \<Rightarrow> int \<Rightarrow> error + (string \<times> string \<times> string \<times> int)" where
  "find_min_subnet ips_int min_prefix =
     (case ips_int of
        [] \<Rightarrow> Inl ValueError
      | x # xs \<Rightarrow> find_loop ips_int (fold min xs x) min_prefix 32)"

section \<open>The partitioner\<close>

text \<open>An entry of \<open>aggregate_subnets\<close>: the tuple
  \<open>(cidr, start_ip, end_ip, current_ips, total_ips, ratio)\<close>. The ratio is a Python float;
  the model keeps the exact rational of which the float is the rounding.\<close>

type_synonym subnet_entry = "string \<times> string \<times> string \<times> string list \<times> int \<times> rat"

text \<open>The \<open>else\<close> branch of the loop body (lines 80-84); the division raises
  \<open>ZeroDivisionError\<close> when \<open>total_ips\<close> is 0.\<close>

definition aggregate :: "int list \<Rightarrow> int \<Rightarrow> error + subnet_entry" where
  "aggregate current_group min_prefix =
     (case find_min_subnet current_group min_prefix of
        Inl e \<Rightarrow> Inl e
      | Inr (cidr, start_ip, end_ip, prefix_len) \<Rightarrow>
          (let current_ips = map int_to_ip current_group;
               total_ips = calculate_subnet_size prefix_len
           in if total_ips = 0 then Inl ZeroDivisionError
              else Inr (cidr, start_ip, end_ip, current_ips, total_ips,
                        of_nat (length current_ips) / of_int total_ips * 100)))"

text \<open>The \<open>while ips_int_sorted\<close> loop of \<open>split_subnets\<close> (lines 59-87), with the two
  result lists as accumulators.\<close>

function split_loop ::
  "int \<Rightarrow> int list \<Rightarrow> subnet_entry list \<Rightarrow> string list
   \<Rightarrow> error + (subnet_entry list \<times> string list)" where
  "split_loop min_prefix [] aggregate_subnets single_ips = Inr (aggregate_subnets, single_ips)"
| "split_loop min_prefix (current_ip # rest) aggregate_subnets single_ips =
     (let current_24 = current_ip AND 0xFFFFFF00;
          current_group = current_ip # takeWhile (\<lambda>ip. ip AND 0xFFFFFF00 = current_24) rest;
          remaining = filter (\<lambda>ip. ip \<notin> set current_group) (current_ip # rest)
      in if length current_group = 1 then
           split_loop min_prefix remaining aggregate_subnets
             (single_ips @ [int_to_ip current_ip])
         else
           (case aggregate current_group min_prefix of
              Inl e \<Rightarrow> Inl e
            | Inr entry \<Rightarrow>
                split_loop min_prefix remaining (aggregate_subnets @ [entry]) single_ips))"
  by pat_completeness auto
termination
  by (relation "measure (\<lambda>(min_prefix, ips, aggs, singles). length ips)")
     (auto simp: less_Suc_eq_le)

declare split_loop.simps [simp del]

text \<open>The list comprehension \<open>[f(x) for x in xs]\<close> of a function that may raise: the first
  exception ends it.\<close>

fun map_raise :: "('a \<Rightarrow> error + 'b) \<Rightarrow> 'a list \<Rightarrow> error + 'b list" where
  "map_raise f [] = Inr []"
| "map_raise f (x # xs) =
     (case f x of
        Inl e \<Rightarrow> Inl e
      | Inr y \<Rightarrow> (case map_raise f xs of Inl e \<Rightarrow> Inl e | Inr ys \<Rightarrow> Inr (y # ys)))"

text \<open>\<open>split_subnets\<close> (lines 48-89).\<close>

definition split_subnets ::
  "string list \<Rightarrow> int \<Rightarrow> error + (subnet_entry list \<times> string list)" where
  "split_subnets ips min_prefix =
     (case map_raise ip_to_int ips of
        Inl e \<Rightarrow> Inl e
      | Inr ips_int \<Rightarrow> split_loop min_prefix (sort ips_int) [] [])"


section \<open>Notions the properties are stated with\<close>

text \<open>A well-formed dotted quad in the sense of the specification: exactly four
  dot-separated components, each of which \<open>int\<close> converts to a value in \<open>[0, 255]\<close>.\<close>

definition well_formed :: "string \<Rightarrow> bool" where
  "well_formed s =
     (let cs = split_on CHR ''.'' s
      in length cs = 4 \<and>
         list_all (\<lambda>c. case py_int c of None \<Rightarrow> False | Some v \<Rightarrow> 0 \<le> v \<and> v \<le> 255) cs)"

text \<open>The value of a string of decimal digits, and the canonical spelling of an octet:
  digits only, no leading zero, at most 255. A canonical dotted quad has four of them.\<close>

definition digits_value :: "string \<Rightarrow> nat" where
  "digits_value ds = foldl (\<lambda>a d. 10 * a + digit_val d) 0 ds"

definition canonical_octet :: "string \<Rightarrow> bool" where
  "canonical_octet c =
     (c \<noteq> [] \<and> list_all is_digit c \<and> (hd c = CHR ''0'' \<longrightarrow> c = ''0'') \<and> digits_value c \<le> 255)"

definition canonical :: "string \<Rightarrow> bool" where
  "canonical s =
     (let cs = split_on CHR ''.'' s in length cs = 4 \<and> list_all canonical_octet cs)"

text \<open>The expression of line 4 on four octets.\<close>

definition compose_octets :: "int \<Rightarrow> int \<Rightarrow> int \<Rightarrow> int \<Rightarrow> int" where
  "compose_octets a b c d = ((push_bit 24 a OR push_bit 16 b) OR push_bit 8 c) OR d"

text \<open>The containment test of line 32 at a prefix length, for a given minimum address, and
  the tuple \<open>find_min_subnet\<close> returns for the block of a prefix length.\<close>

definition contains_all :: "int list \<Rightarrow> int \<Rightarrow> int \<Rightarrow> bool" where
  "contains_all ips_int min_ip prefix_len =
     (case network_broadcast min_ip prefix_len of
        Inl e \<Rightarrow> False
      | Inr (network, broadcast) \<Rightarrow> list_all (\<lambda>ip. network \<le> ip \<and> ip \<le> broadcast) ips_int)"

definition block_result :: "int \<Rightarrow> int \<Rightarrow> error + (string \<times> string \<times> string \<times> int)" where
  "block_result min_ip prefix_len =
     (case network_broadcast min_ip prefix_len of
        Inl e \<Rightarrow> Inl e
      | Inr (network, broadcast) \<Rightarrow>
          Inr (int_to_ip network @ ''/'' @ py_str prefix_len,
               int_to_ip network, int_to_ip broadcast, prefix_len))"










section \<open>The codec: decimal strings, splitting and octets\<close>

lemma split_on_nonempty: "split_on d s \<noteq> []"
  by (induction s) (auto split: list.splits)




lemma digit_char_props:
  "n < 10 \<Longrightarrow> is_digit (digit_char n) \<and> digit_val (digit_char n) = n \<and> \<not> is_space (digit_char n)
     \<and> digit_char n \<noteq> CHR ''.'' \<and> digit_char n \<noteq> CHR ''-'' \<and> digit_char n \<noteq> CHR ''+''"
proof -
  assume "n < 10"
  then have "n \<in> {0, 1, 2, 3, 4, 5, 6, 7, 8, 9}" by auto
  then show ?thesis
    by (auto simp: digit_char_def is_digit_def digit_val_def is_space_def)
qed

lemma digit_char_digit_val: "is_digit c \<Longrightarrow> digit_char (digit_val c) = c"
proof -
  assume d: "is_digit c"
  then have lt: "digit_val c < 10"
    by (auto simp: is_digit_def digit_val_def)
  have "(of_char (digit_char (digit_val c)) :: nat) = 48 + digit_val c"
    using lt digit_char_props [of "digit_val c"]
    by (auto simp: is_digit_def digit_val_def)
  also have "\<dots> = of_char c"
    using d by (auto simp: is_digit_def digit_val_def)
  finally show ?thesis by simp
qed

lemma digits_rest_all_digits:
  "list_all is_digit ds \<Longrightarrow> digits_rest a ds = Some (foldl (\<lambda>a d. 10 * a + digit_val d) a ds)"
  by (induction ds arbitrary: a) auto

lemma py_digits_all_digits:
  "ds \<noteq> [] \<Longrightarrow> list_all is_digit ds \<Longrightarrow> py_digits ds = Some (digits_value ds)"
  by (cases ds) (auto simp: py_digits_def digits_value_def digits_rest_all_digits)

lemma str_nat_nonempty: "str_nat n \<noteq> []"
  by (subst str_nat.simps) simp

lemma str_nat_digits: "list_all is_digit (str_nat n)"
proof (induction n rule: str_nat.induct)
  case (1 n)
  show ?case
    by (subst str_nat.simps) (use 1 in \<open>auto simp: digit_char_props\<close>)
qed

lemma digits_value_snoc: "digits_value (ds @ [d]) = 10 * digits_value ds + digit_val d"
  by (simp add: digits_value_def)

lemma digits_value_str_nat: "digits_value (str_nat n) = n"
proof (induction n rule: str_nat.induct)
  case (1 n)
  show ?case
  proof (cases "n < 10")
    case True
    then show ?thesis
      by (subst str_nat.simps) (simp add: digits_value_def digit_char_props)
  next
    case False
    then have "digits_value (str_nat n) = 10 * (n div 10) + n mod 10"
      by (subst str_nat.simps) (simp add: digits_value_snoc 1 digit_char_props)
    then show ?thesis by simp
  qed
qed

lemma strip_id: "s \<noteq> [] \<Longrightarrow> \<not> is_space (hd s) \<Longrightarrow> \<not> is_space (last s) \<Longrightarrow> strip s = s"
proof -
  assume a: "s \<noteq> []" "\<not> is_space (hd s)" "\<not> is_space (last s)"
  then have "dropWhile is_space s = s"
    by (cases s) auto
  moreover have "dropWhile is_space (rev s) = rev s"
    using a by (cases "rev s") (auto simp: hd_rev)
  ultimately show ?thesis by (simp add: strip_def)
qed

lemma py_int_digits:
  assumes "ds \<noteq> []" "list_all is_digit ds"
  shows "py_int ds = Some (int (digits_value ds))"
proof -
  have nsp: "\<And>c. is_digit c \<Longrightarrow> \<not> is_space c \<and> c \<noteq> CHR ''-'' \<and> c \<noteq> CHR ''+''"
    by (auto simp: is_digit_def is_space_def)
  have "is_digit (hd ds)" "is_digit (last ds)"
    using assms by (auto simp: list_all_iff)
  then have "strip ds = ds"
    using assms(1) nsp by (intro strip_id) auto
  moreover obtain c cs where ds: "ds = c # cs"
    using assms(1) by (cases ds) auto
  moreover have "c \<noteq> CHR ''-''" "c \<noteq> CHR ''+''"
    using assms(2) nsp ds by auto
  ultimately show ?thesis
    using py_digits_all_digits [OF assms] by (simp add: py_int_def)
qed

lemma py_int_str_nat: "py_int (str_nat n) = Some (int n)"
  by (simp add: py_int_digits str_nat_nonempty str_nat_digits digits_value_str_nat)

lemma py_int_py_str: "0 \<le> i \<Longrightarrow> py_int (py_str i) = Some i"
  by (simp add: py_str_def py_int_str_nat)

lemma str_nat_digits_value:
  "ds \<noteq> [] \<Longrightarrow> list_all is_digit ds \<Longrightarrow> (hd ds = CHR ''0'' \<longrightarrow> ds = ''0'') \<Longrightarrow>
   str_nat (digits_value ds) = ds"
proof (induction ds rule: rev_induct)
  case Nil
  then show ?case by simp
next
  case (snoc d ds)
  have d: "is_digit d" and dv: "digit_val d < 10"
    using snoc.prems(2) by (auto simp: is_digit_def digit_val_def)
  show ?case
  proof (cases "ds = []")
    case True
    then show ?thesis
      using d dv by (subst str_nat.simps) (simp add: digits_value_def digit_char_digit_val)
  next
    case False
    then have hd: "hd ds \<noteq> CHR ''0''"
      using snoc.prems(3) by (cases ds) auto
    have IH: "str_nat (digits_value ds) = ds"
      using snoc.IH False snoc.prems(2) hd by simp
    have pos: "0 < digits_value ds"
    proof (rule ccontr)
      assume "\<not> 0 < digits_value ds"
      then have "str_nat (digits_value ds) = ''0''"
        by (subst str_nat.simps) (simp add: digit_char_def)
      with IH have "ds = ''0''" by simp
      with hd show False by simp
    qed
    have "str_nat (10 * digits_value ds + digit_val d)
            = str_nat (digits_value ds) @ [digit_char (digit_val d)]"
      using pos dv by (subst str_nat.simps) simp
    then show ?thesis
      using IH d by (simp add: digits_value_snoc digit_char_digit_val)
  qed
qed

lemma str_nat_no_dot: "CHR ''.'' \<notin> set (str_nat n)"
  using str_nat_digits [of n] by (auto simp: list_all_iff is_digit_def)

lemma split_on_no_sep: "d \<notin> set s \<Longrightarrow> split_on d s = [s]"
  by (induction s) auto

lemma split_on_append: "d \<notin> set a \<Longrightarrow> split_on d (a @ d # rest) = a # split_on d rest"
  by (induction a) auto

lemma split_on_single: "split_on d s = [x] \<Longrightarrow> s = x"
  by (induction s arbitrary: x) (auto split: if_splits list.splits simp: split_on_nonempty)

lemma split_on_Cons2:
  "split_on d s = x # y # ys \<Longrightarrow> \<exists>rest. s = x @ d # rest \<and> split_on d rest = y # ys"
  by (induction s arbitrary: x) (auto split: if_splits list.splits)

lemma and_255: "(x::int) AND 255 = take_bit 8 x"
proof -
  have "(255::int) = mask 8" by (simp add: mask_eq_exp_minus_1)
  then show ?thesis by (simp add: take_bit_eq_mask)
qed

lemma compose_octets_of_parts:
  "take_bit 32 x = x \<Longrightarrow>
   compose_octets (take_bit 8 (drop_bit 24 x)) (take_bit 8 (drop_bit 16 x))
     (take_bit 8 (drop_bit 8 x)) (take_bit 8 x) = (x::int)"
proof -
  assume "take_bit 32 x = x"
  then have b: "\<And>n. bit x n \<Longrightarrow> n < 32"
    by (metis bit_take_bit_iff)
  show ?thesis
    unfolding compose_octets_def
  proof (rule bit_eqI)
    fix n :: nat
    consider "n < 8" | "8 \<le> n" "n < 16" | "16 \<le> n" "n < 24" | "24 \<le> n" "n < 32" | "32 \<le> n"
      by linarith
    then show "bit (((push_bit 24 (take_bit 8 (drop_bit 24 x)) OR push_bit 16 (take_bit 8 (drop_bit 16 x)))
                  OR push_bit 8 (take_bit 8 (drop_bit 8 x))) OR take_bit 8 x) n = bit x n"
      by cases (auto simp: bit_simps dest: b)
  qed
qed

lemma parts_of_compose_octets:
  fixes a b c d :: int
  assumes "take_bit 8 a = a" "take_bit 8 b = b" "take_bit 8 c = c" "take_bit 8 d = d"
  shows "take_bit 8 (drop_bit 24 (compose_octets a b c d)) = a"
    and "take_bit 8 (drop_bit 16 (compose_octets a b c d)) = b"
    and "take_bit 8 (drop_bit 8 (compose_octets a b c d)) = c"
    and "take_bit 8 (compose_octets a b c d) = d"
    and "take_bit 32 (compose_octets a b c d) = compose_octets a b c d"
proof -
  have ba: "\<And>n. bit a n \<Longrightarrow> n < 8" using assms(1) by (metis bit_take_bit_iff)
  have bb: "\<And>n. bit b n \<Longrightarrow> n < 8" using assms(2) by (metis bit_take_bit_iff)
  have bc: "\<And>n. bit c n \<Longrightarrow> n < 8" using assms(3) by (metis bit_take_bit_iff)
  have bd: "\<And>n. bit d n \<Longrightarrow> n < 8" using assms(4) by (metis bit_take_bit_iff)
  show "take_bit 8 (drop_bit 24 (compose_octets a b c d)) = a"
    unfolding compose_octets_def
    by (rule bit_eqI) (auto simp: bit_simps dest: ba bb bc bd)
  show "take_bit 8 (drop_bit 16 (compose_octets a b c d)) = b"
    unfolding compose_octets_def
    by (rule bit_eqI) (auto simp: bit_simps dest: ba bb bc bd)
  show "take_bit 8 (drop_bit 8 (compose_octets a b c d)) = c"
    unfolding compose_octets_def
    by (rule bit_eqI) (auto simp: bit_simps dest: ba bb bc bd)
  show "take_bit 8 (compose_octets a b c d) = d"
    unfolding compose_octets_def
    by (rule bit_eqI) (auto simp: bit_simps dest: ba bb bc bd)
  show "take_bit 32 (compose_octets a b c d) = compose_octets a b c d"
    unfolding compose_octets_def
    by (rule bit_eqI) (auto simp: bit_simps dest: ba bb bc bd)
qed

lemma take_bit_8_range: "0 \<le> take_bit 8 (x::int) \<and> take_bit 8 x < 256"
  using take_bit_int_less_exp [of 8 x] by simp

lemma py_str_octet: "py_str (take_bit 8 x) = str_nat (nat (take_bit 8 x))"
  by (simp add: py_str_def)

lemma split_on_quad:
  "split_on CHR ''.'' (str_nat a @ ''.'' @ str_nat b @ ''.'' @ str_nat c @ ''.'' @ str_nat d)
     = [str_nat a, str_nat b, str_nat c, str_nat d]"
  by (simp add: split_on_append split_on_no_sep str_nat_no_dot)

lemma int_to_ip_octets:
  "int_to_ip x = str_nat (nat (take_bit 8 (drop_bit 24 x))) @ ''.'' @
                 str_nat (nat (take_bit 8 (drop_bit 16 x))) @ ''.'' @
                 str_nat (nat (take_bit 8 (drop_bit 8 x))) @ ''.'' @
                 str_nat (nat (take_bit 8 x))"
  by (simp add: int_to_ip_def and_255 py_str_octet)

lemma ip_to_int_quad:
  "ip_to_int (str_nat a @ ''.'' @ str_nat b @ ''.'' @ str_nat c @ ''.'' @ str_nat d)
     = Inr (compose_octets (int a) (int b) (int c) (int d))"
  unfolding ip_to_int_def split_on_quad
  by (simp add: py_int_str_nat compose_octets_def)

lemma ip_to_int_int_to_ip:
  assumes "0 \<le> x" "x < 2 ^ 32"
  shows "ip_to_int (int_to_ip x) = Inr x"
proof -
  have "take_bit 32 x = x"
    using assms by (simp add: take_bit_int_eq_self)
  then show ?thesis
    unfolding int_to_ip_octets ip_to_int_quad
    by (simp add: compose_octets_of_parts)
qed

lemma split_on_four:
  assumes "split_on d s = [p, q, r, t]"
  shows "s = p @ d # q @ d # r @ d # t"
proof -
  from split_on_Cons2 [OF assms] obtain s1 where 1: "s = p @ d # s1" "split_on d s1 = [q, r, t]"
    by blast
  from split_on_Cons2 [OF 1(2)] obtain s2 where 2: "s1 = q @ d # s2" "split_on d s2 = [r, t]"
    by blast
  from split_on_Cons2 [OF 2(2)] obtain s3 where 3: "s2 = r @ d # s3" "split_on d s3 = [t]"
    by blast
  from split_on_single [OF 3(2)] 1 2 3 show ?thesis by simp
qed

lemma canonical_octet_str_nat:
  "canonical_octet c \<Longrightarrow> str_nat (digits_value c) = c \<and> take_bit 8 (int (digits_value c)) = int (digits_value c)"
  by (auto simp: canonical_octet_def str_nat_digits_value take_bit_int_eq_self)

lemma int_to_ip_ip_to_int:
  assumes "canonical s"
  shows "\<exists>x. ip_to_int s = Inr x \<and> 0 \<le> x \<and> x < 2 ^ 32 \<and> int_to_ip x = s"
proof -
  from assms obtain p q r t where cs: "split_on CHR ''.'' s = [p, q, r, t]"
    and c: "canonical_octet p" "canonical_octet q" "canonical_octet r" "canonical_octet t"
    by (auto simp: canonical_def Let_def length_Suc_conv numeral_eq_Suc)
  define a b c d where "a = digits_value p" and "b = digits_value q"
    and "c = digits_value r" and "d = digits_value t"
  note canonical_octet_str_nat [OF c(1)] canonical_octet_str_nat [OF c(2)]
    canonical_octet_str_nat [OF c(3)] canonical_octet_str_nat [OF c(4)]
  then have str: "str_nat a = p" "str_nat b = q" "str_nat c = r" "str_nat d = t"
    and tb: "take_bit 8 (int a) = int a" "take_bit 8 (int b) = int b"
      "take_bit 8 (int c) = int c" "take_bit 8 (int d) = int d"
    by (simp_all add: a_def b_def c_def d_def)
  have s: "s = str_nat a @ ''.'' @ str_nat b @ ''.'' @ str_nat c @ ''.'' @ str_nat d"
    using split_on_four [OF cs] str by simp
  let ?x = "compose_octets (int a) (int b) (int c) (int d)"
  have 1: "ip_to_int s = Inr ?x"
    unfolding s by (rule ip_to_int_quad)
  have 2: "take_bit 32 ?x = ?x"
    by (rule parts_of_compose_octets(5) [OF tb])
  then have 3: "0 \<le> ?x \<and> ?x < 2 ^ 32"
    by (simp only: take_bit_int_eq_self_iff)
  have 4: "int_to_ip ?x = s"
    unfolding int_to_ip_octets
    by (simp only: parts_of_compose_octets(1-4) [OF tb] nat_int s)
  from 1 3 4 show ?thesis by blast
qed


section \<open>The minimal cover: the loop and the masks\<close>


lemma network_broadcast_le32:
  "p \<le> 32 \<Longrightarrow> \<exists>n b. network_broadcast m p = Inr (n, b)"
  by (simp add: network_broadcast_def py_lshift_def Let_def)

lemma find_loop_hit:
  "mp \<le> p \<Longrightarrow> contains_all ips m p \<Longrightarrow> find_loop ips m mp p = block_result m p"
  by (subst find_loop.simps)
     (auto simp: contains_all_def block_result_def split: sum.splits)

lemma find_loop_miss:
  "mp \<le> p \<Longrightarrow> p \<le> 32 \<Longrightarrow> \<not> contains_all ips m p \<Longrightarrow>
   find_loop ips m mp p = find_loop ips m mp (p - 1)"
  using network_broadcast_le32 [of p m]
  by (subst find_loop.simps) (auto simp: contains_all_def split: sum.splits)

lemma find_loop_exit:
  "p < mp \<Longrightarrow> find_loop ips m mp p = block_result m mp"
  by (subst find_loop.simps) (auto simp: block_result_def split: sum.splits)

lemma find_loop_first:
  "p \<le> 32 \<Longrightarrow> mp \<le> q \<Longrightarrow> q \<le> p \<Longrightarrow> contains_all ips m q \<Longrightarrow>
   \<exists>P. q \<le> P \<and> P \<le> p \<and> contains_all ips m P \<and>
       (\<forall>R. P < R \<and> R \<le> p \<longrightarrow> \<not> contains_all ips m R) \<and>
       find_loop ips m mp p = block_result m P"
proof (induction "nat (p - q)" arbitrary: p)
  case 0
  then have "p = q" by simp
  with 0 show ?case
    by (intro exI [of _ p]) (auto simp: find_loop_hit)
next
  case (Suc n)
  show ?case
  proof (cases "contains_all ips m p")
    case True
    with Suc.prems show ?thesis
      by (intro exI [of _ p]) (auto simp: find_loop_hit)
  next
    case False
    from Suc.hyps(2) Suc.prems have "n = nat (p - 1 - q)" "p - 1 \<le> 32" "q \<le> p - 1"
      by auto
    from Suc.hyps(1) [OF this(1,2) Suc.prems(2) this(3) Suc.prems(4)]
    obtain P where P: "q \<le> P" "P \<le> p - 1" "contains_all ips m P"
      "\<forall>R. P < R \<and> R \<le> p - 1 \<longrightarrow> \<not> contains_all ips m R"
      "find_loop ips m mp (p - 1) = block_result m P"
      by blast
    have "\<forall>R. P < R \<and> R \<le> p \<longrightarrow> \<not> contains_all ips m R"
    proof (intro allI impI)
      fix R assume "P < R \<and> R \<le> p"
      then have "R = p \<or> (P < R \<and> R \<le> p - 1)" by auto
      then show "\<not> contains_all ips m R"
        using False P(4) by blast
    qed
    moreover have "find_loop ips m mp p = block_result m P"
      using find_loop_miss [of mp p ips m] Suc.prems False P(5) by simp
    ultimately show ?thesis
      using P(1,2,3) by (intro exI [of _ P]) auto
  qed
qed

lemma find_loop_none:
  "p \<le> 32 \<Longrightarrow> (\<forall>q. mp \<le> q \<and> q \<le> p \<longrightarrow> \<not> contains_all ips m q) \<Longrightarrow>
   find_loop ips m mp p = block_result m mp"
proof (induction "nat (p - mp + 1)" arbitrary: p)
  case 0
  then have "p < mp" by simp
  then show ?case by (rule find_loop_exit)
next
  case (Suc n)
  then have le: "mp \<le> p" by simp
  with Suc.prems have "\<not> contains_all ips m p" by blast
  then have "find_loop ips m mp p = find_loop ips m mp (p - 1)"
    using find_loop_miss le Suc.prems(1) by simp
  moreover have "find_loop ips m mp (p - 1) = block_result m mp"
    using Suc.hyps(2) Suc.prems by (intro Suc.hyps(1)) auto
  ultimately show ?case by simp
qed

lemma fold_min_eq_Min: "fold min xs (x::int) = Min (set (x # xs))"
  by (simp only: Min.set_eq_fold)

lemma all_ones_32: "(0xFFFFFFFF::int) = mask 32"
  by (simp add: mask_eq_exp_minus_1)

lemma and_netmask:
  assumes "0 \<le> m" "m < 2 ^ 32"
  shows "m AND (push_bit k 0xFFFFFFFF AND 0xFFFFFFFF) = push_bit k (drop_bit k (m::int))"
proof -
  have "take_bit 32 m = m"
    using assms by (simp add: take_bit_int_eq_self)
  then have b: "\<And>n. bit m n \<Longrightarrow> n < 32"
    by (metis bit_take_bit_iff)
  show ?thesis
    unfolding all_ones_32
  proof (rule bit_eqI)
    fix n :: nat
    show "bit (m AND (push_bit k (mask 32) AND mask 32)) n = bit (push_bit k (drop_bit k m)) n"
      by (cases "k \<le> n") (auto simp: bit_simps dest: b)
  qed
qed

lemma not_netmask:
  "k \<le> 32 \<Longrightarrow> NOT (push_bit k 0xFFFFFFFF AND 0xFFFFFFFF) AND 0xFFFFFFFF = (mask k :: int)"
  unfolding all_ones_32
  by (rule bit_eqI) (auto simp: bit_simps)

lemma push_bit_or_mask: "push_bit k (x::int) OR mask k = push_bit k x + mask k"
  by (rule disjunctive_add [symmetric]) (auto simp: bit_simps)

lemma network_broadcast_arith:
  assumes "0 \<le> m" "m < 2 ^ 32" "0 \<le> p" "p \<le> 32"
  shows "network_broadcast m p =
           Inr (m div 2 ^ nat (32 - p) * 2 ^ nat (32 - p),
                m div 2 ^ nat (32 - p) * 2 ^ nat (32 - p) + 2 ^ nat (32 - p) - 1)"
proof -
  define k where "k = nat (32 - p)"
  have k: "k \<le> 32" using assms by (simp add: k_def)
  have sh: "py_lshift 0xFFFFFFFF (32 - p) = Inr (push_bit k 0xFFFFFFFF)"
    using assms(4) by (simp add: py_lshift_def k_def)
  have "network_broadcast m p = Inr (push_bit k (drop_bit k m), push_bit k (drop_bit k m) + mask k)"
    unfolding network_broadcast_def sh
    by (simp only: sum.case Let_def and_netmask [OF assms(1,2)] not_netmask [OF k] push_bit_or_mask)
  then show ?thesis
    by (simp add: push_bit_eq_mult drop_bit_eq_div mask_eq_exp_minus_1 k_def)
qed

lemma find_min_subnet_loop:
  "ips \<noteq> [] \<Longrightarrow> find_min_subnet ips mp = find_loop ips (Min (set ips)) mp 32"
  by (cases ips) (simp_all add: find_min_subnet_def fold_min_eq_Min del: set_simps)

lemma network_broadcast_unfold:
  "p \<le> 32 \<Longrightarrow>
   network_broadcast m p =
     Inr (m AND (push_bit (nat (32 - p)) 0xFFFFFFFF AND 0xFFFFFFFF),
          (m AND (push_bit (nat (32 - p)) 0xFFFFFFFF AND 0xFFFFFFFF)) OR
          (NOT (push_bit (nat (32 - p)) 0xFFFFFFFF AND 0xFFFFFFFF) AND 0xFFFFFFFF))"
  by (simp only: network_broadcast_def py_lshift_def Let_def sum.case) simp

lemma contains_all_0:
  assumes "\<forall>a\<in>set ips. 0 \<le> a \<and> a < 2 ^ 32" "0 \<le> m" "m < 2 ^ 32"
  shows "contains_all ips m 0"
  using assms by (auto simp: contains_all_def network_broadcast_arith list_all_iff)

lemma find_min_subnet_cover:
  assumes "ips \<noteq> []" and "\<forall>a\<in>set ips. 0 \<le> a \<and> a < 2 ^ 32"
    and "mp \<le> Q" and "Q \<le> 32" and "contains_all ips (Min (set ips)) Q"
  shows "\<exists>P network broadcast.
           find_min_subnet ips mp =
             Inr (int_to_ip network @ ''/'' @ py_str P, int_to_ip network,
                  int_to_ip broadcast, P) \<and>
           mp \<le> P \<and> Q \<le> P \<and> 0 \<le> P \<and> P \<le> 32 \<and>
           contains_all ips (Min (set ips)) P \<and>
           (\<forall>R. P < R \<and> R \<le> 32 \<longrightarrow> \<not> contains_all ips (Min (set ips)) R) \<and>
           network = Min (set ips) div 2 ^ nat (32 - P) * 2 ^ nat (32 - P) \<and>
           broadcast = network + 2 ^ nat (32 - P) - 1 \<and>
           (\<forall>a\<in>set ips. network \<le> a \<and> a \<le> broadcast)"
proof -
  let ?m = "Min (set ips)"
  have "?m \<in> set ips"
    using assms(1) by (intro Min_in) auto
  then have m: "0 \<le> ?m" "?m < 2 ^ 32"
    using assms(2) by auto
  define q where "q = max Q 0"
  have q: "mp \<le> q" "q \<le> 32" "0 \<le> q" "Q \<le> q"
    using assms(3,4) by (auto simp: q_def)
  have cq: "contains_all ips ?m q"
    using assms(5) contains_all_0 [OF assms(2) m] by (auto simp: q_def max_def)
  from find_loop_first [OF _ q(1,2) cq]
  obtain P where P: "q \<le> P" "P \<le> 32" "contains_all ips ?m P"
    "\<forall>R. P < R \<and> R \<le> 32 \<longrightarrow> \<not> contains_all ips ?m R"
    "find_loop ips ?m mp 32 = block_result ?m P"
    by auto
  have P0: "0 \<le> P" using P(1) q(3) by simp
  note nb = network_broadcast_arith [OF m P0 P(2)]
  let ?n = "?m div 2 ^ nat (32 - P) * 2 ^ nat (32 - P)"
  have res: "find_min_subnet ips mp =
               Inr (int_to_ip ?n @ ''/'' @ py_str P, int_to_ip ?n,
                    int_to_ip (?n + 2 ^ nat (32 - P) - 1), P)"
    using assms(1) P(5) by (simp add: find_min_subnet_loop block_result_def nb)
  have cov: "\<forall>a\<in>set ips. ?n \<le> a \<and> a \<le> ?n + 2 ^ nat (32 - P) - 1"
    using P(3) by (simp add: contains_all_def nb list_all_iff)
  from res cov P q P0 show ?thesis
    by (intro exI [of _ P] exI [of _ ?n] exI [of _ "?n + 2 ^ nat (32 - P) - 1"]) auto
qed


section \<open>The partitioner: groups of a sorted list\<close>




















lemma map_raise_Inr:
  "(\<forall>x\<in>set xs. f x = Inr (g x)) \<Longrightarrow> map_raise f xs = Inr (map g xs)"
  by (induction xs) auto

lemma map_raise_isl: "isl (map_raise f xs) \<longleftrightarrow> (\<exists>x\<in>set xs. isl (f x))"
  by (induction xs) (auto split: sum.splits)

lemma map_raise_values:
  assumes "\<forall>x\<in>set xs. \<not> isl (f x)"
  shows "map_raise f xs = Inr (map (\<lambda>x. projr (f x)) xs)"
  using assms by (intro map_raise_Inr) (auto simp: isl_def)


















section \<open>The properties\<close>

subsection \<open>The address codec\<close>

text \<open>C7, as the code has it: for every integer \<open>a\<close> in \<open>[0, 2^32)\<close>,
  \<open>ip_to_int (int_to_ip a)\<close> is \<open>a\<close>; and for every canonical dotted quad \<open>s\<close> (four
  dot-separated octets written in decimal digits without a leading zero, each at most 255),
  \<open>ip_to_int s\<close> succeeds and \<open>int_to_ip\<close> gives \<open>s\<close> back.\<close>

theorem codec_round_trip:
  "(0 \<le> a \<and> a < 2 ^ 32 \<longrightarrow> ip_to_int (int_to_ip a) = Inr a) \<and>
   (canonical s \<longrightarrow> (\<exists>x. ip_to_int s = Inr x \<and> 0 \<le> x \<and> x < 2 ^ 32 \<and> int_to_ip x = s))"
  using ip_to_int_int_to_ip [of a] int_to_ip_ip_to_int [of s] by blast

theorem codec_round_trip_witness:
  "ip_to_int (int_to_ip 3232235786) = Inr 3232235786 \<and>
   canonical ''192.168.1.10'' \<and>
   (\<exists>x. ip_to_int ''192.168.1.10'' = Inr x \<and> 0 \<le> x \<and> x < 2 ^ 32 \<and>
        int_to_ip x = ''192.168.1.10'')"
proof -
  have c: "canonical ''192.168.1.10''"
    by code_simp
  have r: "(0::int) \<le> 3232235786 \<and> (3232235786::int) < 2 ^ 32"
    by simp
  from codec_round_trip [of 3232235786 "''192.168.1.10''"] c r show ?thesis
    by blast
qed

text \<open>C7 as the specification states it fails on a well-formed dotted quad that is not
  canonical: \<open>01.2.3.4\<close> has four components that are integers in \<open>[0, 255]\<close>, parses to
  16909060, and is formatted back as \<open>1.2.3.4\<close>.\<close>

theorem codec_round_trip_counterexample:
  "well_formed ''01.2.3.4'' \<and> ip_to_int ''01.2.3.4'' = Inr 16909060 \<and>
   int_to_ip 16909060 = ''1.2.3.4'' \<and> int_to_ip 16909060 \<noteq> ''01.2.3.4''"
  by code_simp






subsection \<open>The minimal cover\<close>

text \<open>C1, as the code has it: for a non-empty list of 32-bit addresses and a floor of at most
  32 such that the block of some prefix length in \<open>[floor, 32]\<close> around the minimum address
  contains every address, \<open>find_min_subnet\<close> returns the largest such prefix length \<open>P\<close>
  (the smallest block), never below 0, with the network and broadcast address of the block of
  size \<open>2^(32 - P)\<close> aligned around the minimum address, which contains every address, and
  the CIDR text \<open>int_to_ip network + "/" + P\<close>.\<close>

theorem find_min_subnet_largest_prefix:
  assumes "ips \<noteq> []" and "\<forall>a\<in>set ips. 0 \<le> a \<and> a < 2 ^ 32"
    and "mp \<le> Q" and "Q \<le> 32" and "contains_all ips (Min (set ips)) Q"
  shows "\<exists>P network broadcast.
           find_min_subnet ips mp =
             Inr (int_to_ip network @ ''/'' @ py_str P, int_to_ip network,
                  int_to_ip broadcast, P) \<and>
           mp \<le> P \<and> Q \<le> P \<and> 0 \<le> P \<and> P \<le> 32 \<and>
           contains_all ips (Min (set ips)) P \<and>
           (\<forall>R. P < R \<and> R \<le> 32 \<longrightarrow> \<not> contains_all ips (Min (set ips)) R) \<and>
           network = Min (set ips) div 2 ^ nat (32 - P) * 2 ^ nat (32 - P) \<and>
           broadcast = network + 2 ^ nat (32 - P) - 1 \<and>
           (\<forall>a\<in>set ips. network \<le> a \<and> a \<le> broadcast)"
  using assms by (rule find_min_subnet_cover)

theorem find_min_subnet_largest_prefix_witness:
  "contains_all [3232235786, 3232235787, 3232235788]
     (Min (set [3232235786, 3232235787, 3232235788])) 24 \<and>
   find_min_subnet [3232235786, 3232235787, 3232235788] 24 =
     Inr (''192.168.1.8/29'', ''192.168.1.8'', ''192.168.1.15'', 29)"
proof -
  let ?ips = "[3232235786, 3232235787, 3232235788::int]"
  have a: "?ips \<noteq> []"
    by simp
  have b: "\<forall>a\<in>set ?ips. 0 \<le> a \<and> a < 2 ^ 32"
    by simp
  have c: "(24::int) \<le> 24" "(24::int) \<le> 32"
    by simp_all
  have d: "contains_all ?ips (Min (set ?ips)) 24"
    by code_simp
  have e: "find_min_subnet ?ips 24 =
             Inr (''192.168.1.8/29'', ''192.168.1.8'', ''192.168.1.15'', 29)"
    by code_simp
  from find_min_subnet_largest_prefix [OF a b c d] d e show ?thesis
    by simp
qed

text \<open>C1 as the specification states it fails: for 192.168.1.10 and 192.168.1.11 with floor
  24 the code returns prefix length 31, and 31 is not the smallest prefix length in
  \<open>[24, 32]\<close> whose block contains both addresses, since the block of 24 contains them too.\<close>

theorem find_min_subnet_smallest_prefix_counterexample:
  "find_min_subnet [3232235786, 3232235787] 24 =
     Inr (''192.168.1.10/31'', ''192.168.1.10'', ''192.168.1.11'', 31) \<and>
   contains_all [3232235786, 3232235787] (Min (set [3232235786, 3232235787])) 24 \<and>
   (24::int) < 31"
  by code_simp

text \<open>C8: for a non-empty list and a floor of at most 32 for which the containment test fails
  at every prefix length in \<open>[floor, 32]\<close>, \<open>find_min_subnet\<close> returns the floor itself as
  prefix length, with the minimum address masked by the floor's mask as network, the
  corresponding broadcast address, and the CIDR text of the two, although that block does not
  contain every address.\<close>

theorem find_min_subnet_fallback:
  assumes "ips \<noteq> []" and "mp \<le> 32"
    and "\<forall>P. mp \<le> P \<and> P \<le> 32 \<longrightarrow> \<not> contains_all ips (Min (set ips)) P"
  shows "\<exists>network broadcast.
           network = Min (set ips) AND (push_bit (nat (32 - mp)) 0xFFFFFFFF AND 0xFFFFFFFF) \<and>
           broadcast = network OR
             (NOT (push_bit (nat (32 - mp)) 0xFFFFFFFF AND 0xFFFFFFFF) AND 0xFFFFFFFF) \<and>
           find_min_subnet ips mp =
             Inr (int_to_ip network @ ''/'' @ py_str mp, int_to_ip network,
                  int_to_ip broadcast, mp) \<and>
           \<not> list_all (\<lambda>ip. network \<le> ip \<and> ip \<le> broadcast) ips"
proof -
  let ?m = "Min (set ips)"
  have "find_min_subnet ips mp = block_result ?m mp"
    using assms by (simp add: find_min_subnet_loop find_loop_none)
  moreover have "\<not> contains_all ips ?m mp"
    using assms(2,3) by blast
  ultimately show ?thesis
    by (simp add: block_result_def contains_all_def network_broadcast_unfold [OF assms(2)])
qed

theorem find_min_subnet_fallback_witness:
  "find_min_subnet [3232235786, 3232235999] 28 =
     Inr (''192.168.1.0/28'', ''192.168.1.0'', ''192.168.1.15'', 28) \<and>
   \<not> list_all (\<lambda>ip. 3232235776 \<le> ip \<and> ip \<le> 3232235791) [3232235786, 3232235999::int]"
proof -
  let ?ips = "[3232235786, 3232235999::int]"
  have a: "?ips \<noteq> []" by simp
  have b: "(28::int) \<le> 32" by simp
  have "list_all (\<lambda>P. \<not> contains_all ?ips (Min (set ?ips)) P) [28, 29, 30, 31, 32]"
    by code_simp
  moreover have "\<And>P::int. 28 \<le> P \<and> P \<le> 32 \<Longrightarrow> P \<in> set [28, 29, 30, 31, 32]"
    by auto
  ultimately have c: "\<forall>P. 28 \<le> P \<and> P \<le> 32 \<longrightarrow> \<not> contains_all ?ips (Min (set ?ips)) P"
    unfolding list_all_iff by blast
  have d: "Min (set ?ips) AND (push_bit (nat (32 - 28)) 0xFFFFFFFF AND 0xFFFFFFFF) = 3232235776"
    by code_simp
  have e: "(3232235776::int) OR (NOT (push_bit (nat (32 - 28)) 0xFFFFFFFF AND 0xFFFFFFFF) AND 0xFFFFFFFF) = 3232235791"
    by code_simp
  have f: "int_to_ip 3232235776 = ''192.168.1.0'' \<and> int_to_ip 3232235791 = ''192.168.1.15'' \<and> py_str 28 = ''28''"
    by code_simp
  from find_min_subnet_fallback [OF a b c] show ?thesis
    unfolding d e by (simp add: f)
qed

subsection \<open>The partitioner\<close>











text \<open>C6: for every input list and every permutation of it, \<open>split_subnets\<close> either raises
  on both (some string of the list does not parse) or returns the same result for both,
  whatever the floor.\<close>

theorem split_subnets_permutation:
  assumes "mset ips' = mset ips"
  shows "(isl (split_subnets ips' mp) \<longleftrightarrow> isl (split_subnets ips mp)) \<and>
         ((\<forall>s\<in>set ips. \<not> isl (ip_to_int s)) \<longrightarrow> split_subnets ips' mp = split_subnets ips mp)"
proof (cases "\<forall>s\<in>set ips. \<not> isl (ip_to_int s)")
  case True
  have set: "set ips' = set ips"
    using assms by (rule mset_eq_setD)
  let ?h = "\<lambda>s. projr (ip_to_int s)"
  have 1: "map_raise ip_to_int ips = Inr (map ?h ips)"
    using True by (rule map_raise_values)
  have 2: "map_raise ip_to_int ips' = Inr (map ?h ips')"
    using True set by (intro map_raise_values) simp
  have "mset (map ?h ips') = mset (map ?h ips)"
    using assms by simp
  then have "sort (map ?h ips') = sort (map ?h ips)"
    by (intro properties_for_sort) simp_all
  then have "split_subnets ips' mp = split_subnets ips mp"
    by (simp add: split_subnets_def 1 2)
  then show ?thesis by simp
next
  case False
  have set: "set ips' = set ips"
    using assms by (rule mset_eq_setD)
  from False have "isl (map_raise ip_to_int ips)" "isl (map_raise ip_to_int ips')"
    unfolding map_raise_isl set by simp_all
  then have "isl (split_subnets ips mp)" "isl (split_subnets ips' mp)"
    by (auto simp: split_subnets_def isl_def)
  with False show ?thesis by blast
qed

theorem split_subnets_permutation_witness:
  "mset [''10.0.0.2'', ''2.2.2.2'', ''10.0.0.1''] = mset [''10.0.0.1'', ''10.0.0.2'', ''2.2.2.2''] \<and>
   split_subnets [''10.0.0.2'', ''2.2.2.2'', ''10.0.0.1''] 24 =
     split_subnets [''10.0.0.1'', ''10.0.0.2'', ''2.2.2.2''] 24 \<and>
   split_subnets [''10.0.0.1'', ''10.0.0.2'', ''2.2.2.2''] 24 =
     Inr ([(''10.0.0.0/30'', ''10.0.0.0'', ''10.0.0.3'', [''10.0.0.1'', ''10.0.0.2''], 4, 50)],
          [''2.2.2.2''])"
proof -
  let ?a = "[''10.0.0.2'', ''2.2.2.2'', ''10.0.0.1'']"
  let ?b = "[''10.0.0.1'', ''10.0.0.2'', ''2.2.2.2'']"
  have m: "mset ?a = mset ?b"
    by (simp add: add_mset_commute)
  have p: "\<forall>s\<in>set ?b. \<not> isl (ip_to_int s)"
    by code_simp
  have r: "split_subnets ?b 24 =
     Inr ([(''10.0.0.0/30'', ''10.0.0.0'', ''10.0.0.3'', [''10.0.0.1'', ''10.0.0.2''], 4, 50)],
          [''2.2.2.2''])"
    by code_simp
  from split_subnets_permutation [OF m, of 24] p have "split_subnets ?a 24 = split_subnets ?b 24"
    by blast
  with m r show ?thesis
    by blast
qed

end
